theory Spec2Isabelle
  imports Main "HOL-Library.Word"
begin

section \<open>The container \<open>array_3d<T, D1, D2, D3>\<close> of \<open>array_3d.hpp\<close>\<close>

subsection \<open>Memory, shapes and errors\<close>

text \<open>
  The container is a wrapper for the built-in array \<open>T elems[D1][D2][D3]\<close>, and every
  bulk operation of the header works on it through raw pointers (\<open>T *\<close> iterators),
  two of them (\<open>swap\<close>, the comparisons) on two objects at once. The model therefore
  has an explicit store: a cell holds one value of the element type, an address counts
  cells, and a pointer or a reference to \<open>T\<close> is an address. There is one store per
  element type, so the converting assignment reads a store of \<open>T2\<close> and writes a store
  of \<open>T\<close>.
\<close>

type_synonym addr = nat

type_synonym 'a store = "addr \<Rightarrow> 'a"

text \<open>
  \<open>size_type\<close> is \<open>std::size_t\<close>, an unsigned machine integer whose width \<open>'w\<close> depends
  on the platform: arithmetic on it wraps. The template arguments \<open>D1\<close>, \<open>D2\<close>, \<open>D3\<close>
  of an instantiation are collected in a record; an object of the instantiation is
  given by the address of its only member \<open>elems\<close>.
\<close>

record (overloaded) ('w::len) dims =
  D1 :: "'w word"
  D2 :: "'w word"
  D3 :: "'w word"

text \<open>
  The array type \<open>T[D1][D2][D3]\<close> exists only if its number of cells is a value of
  \<open>std::size_t\<close> (a compiler rejects a larger array). This is the one assumption on
  the template arguments; zero dimensions satisfy it.
\<close>

definition valid_dims :: "'w::len dims \<Rightarrow> bool" where
  "valid_dims s \<longleftrightarrow> unat (D1 s) * unat (D2 s) * unat (D3 s) < 2 ^ LENGTH('w)"

text \<open>The only exception of the header: \<open>std::out_of_range\<close> with its message.\<close>

datatype error = out_of_range string

subsection \<open>Built-in subscripting\<close>

text \<open>
  \<open>a[n]\<close> on a built-in array is \<open>*(a + n)\<close>: the address moves by \<open>n\<close> elements of
  the array, each \<open>stride\<close> cells wide. No bound is checked.
\<close>

definition subscript :: "addr \<Rightarrow> nat \<Rightarrow> 'w::len word \<Rightarrow> addr" where
  "subscript a stride n = a + unat n * stride"

text \<open>
  \<open>elems[dim1][dim2][dim3]\<close>: an element of \<open>elems\<close> is a \<open>T[D2][D3]\<close>, an element of
  that a \<open>T[D3]\<close>, an element of that a single cell.
\<close>

definition elems_at :: "'w::len dims \<Rightarrow> addr \<Rightarrow> 'w word \<Rightarrow> 'w word \<Rightarrow> 'w word \<Rightarrow> addr" where
  "elems_at s x dim1 dim2 dim3 =
     subscript (subscript (subscript x (unat (D2 s) * unat (D3 s)) dim1) (unat (D3 s)) dim2) 1 dim3"

subsection \<open>The standard algorithms the header calls\<close>

text \<open>
  The header delegates to \<open><algorithm>\<close>. Each algorithm is modelled by the loop the
  C++ standard specifies for it, on pointers: a range \<open>[first, last)\<close> has
  \<open>last - first\<close> elements and the loop runs once for each.
\<close>

text \<open>\<open>std::fill_n(first, n, value)\<close>: \<open>*first++ = value\<close>, \<open>n\<close> times. The value is a
  \<open>const T &\<close>, so it is an address and is read at each assignment.\<close>

fun std_fill_n :: "addr \<Rightarrow> nat \<Rightarrow> addr \<Rightarrow> 'a store \<Rightarrow> 'a store" where
  "std_fill_n first 0 val h = h"
| "std_fill_n first (Suc n) val h = std_fill_n (Suc first) n val (h(first := h val))"

text \<open>\<open>std::copy(first, last, result)\<close>: \<open>*result++ = *first++\<close> for each element. The
  assignment converts the source element with the implicit conversion \<open>cv\<close> from \<open>T2\<close>
  to \<open>T\<close>.\<close>

fun copy_loop :: "('b \<Rightarrow> 'a) \<Rightarrow> 'b store \<Rightarrow> addr \<Rightarrow> nat \<Rightarrow> addr \<Rightarrow> 'a store \<Rightarrow> 'a store" where
  "copy_loop cv src first 0 result h = h"
| "copy_loop cv src first (Suc n) result h =
     copy_loop cv src (Suc first) n (Suc result) (h(result := cv (src first)))"

definition std_copy :: "('b \<Rightarrow> 'a) \<Rightarrow> 'b store \<Rightarrow> addr \<Rightarrow> addr \<Rightarrow> addr \<Rightarrow> 'a store \<Rightarrow> 'a store" where
  "std_copy cv src first lastp result h = copy_loop cv src first (lastp - first) result h"

text \<open>\<open>std::swap(a, b)\<close> on two references: \<open>T tmp = a; a = b; b = tmp;\<close>.\<close>

definition std_swap :: "addr \<Rightarrow> addr \<Rightarrow> 'a store \<Rightarrow> 'a store" where
  "std_swap a b h = (let tmp = h a; h1 = h(a := h b); h2 = h1(b := tmp) in h2)"

text \<open>\<open>std::swap_ranges(first1, last1, first2)\<close>: \<open>swap(*first1++, *first2++)\<close> for each
  element of the first range.\<close>

fun swap_ranges_loop :: "addr \<Rightarrow> nat \<Rightarrow> addr \<Rightarrow> 'a store \<Rightarrow> 'a store" where
  "swap_ranges_loop first1 0 first2 h = h"
| "swap_ranges_loop first1 (Suc n) first2 h =
     swap_ranges_loop (Suc first1) n (Suc first2) (std_swap first1 first2 h)"

definition std_swap_ranges :: "addr \<Rightarrow> addr \<Rightarrow> addr \<Rightarrow> 'a store \<Rightarrow> 'a store" where
  "std_swap_ranges first1 last1 first2 h = swap_ranges_loop first1 (last1 - first1) first2 h"

text \<open>\<open>std::equal(first1, last1, first2)\<close>: false at the first pair that \<open>==\<close> of \<open>T\<close>
  (the parameter \<open>eq\<close>) does not hold for, true when the range is exhausted.\<close>

fun equal_loop :: "('a \<Rightarrow> 'a \<Rightarrow> bool) \<Rightarrow> 'a store \<Rightarrow> addr \<Rightarrow> nat \<Rightarrow> addr \<Rightarrow> bool" where
  "equal_loop eq h first1 0 first2 = True"
| "equal_loop eq h first1 (Suc n) first2 =
     (if \<not> eq (h first1) (h first2) then False
      else equal_loop eq h (Suc first1) n (Suc first2))"

definition std_equal :: "('a \<Rightarrow> 'a \<Rightarrow> bool) \<Rightarrow> 'a store \<Rightarrow> addr \<Rightarrow> addr \<Rightarrow> addr \<Rightarrow> bool" where
  "std_equal eq h first1 last1 first2 = equal_loop eq h first1 (last1 - first1) first2"

text \<open>\<open>std::lexicographical_compare(first1, last1, first2, last2)\<close> with \<open><\<close> of \<open>T\<close>
  (the parameter \<open>lt\<close>): while both ranges have an element, \<open>*first1 < *first2\<close>
  returns true and \<open>*first2 < *first1\<close> returns false; at the end the result is
  \<open>first1 == last1 && first2 != last2\<close>.\<close>

fun lexicographical_compare_loop ::
  "('a \<Rightarrow> 'a \<Rightarrow> bool) \<Rightarrow> 'a store \<Rightarrow> addr \<Rightarrow> nat \<Rightarrow> addr \<Rightarrow> nat \<Rightarrow> bool" where
  "lexicographical_compare_loop lt h first1 0 first2 n2 = (n2 \<noteq> 0)"
| "lexicographical_compare_loop lt h first1 (Suc n1) first2 0 = False"
| "lexicographical_compare_loop lt h first1 (Suc n1) first2 (Suc n2) =
     (if lt (h first1) (h first2) then True
      else if lt (h first2) (h first1) then False
      else lexicographical_compare_loop lt h (Suc first1) n1 (Suc first2) n2)"

definition std_lexicographical_compare ::
  "('a \<Rightarrow> 'a \<Rightarrow> bool) \<Rightarrow> 'a store \<Rightarrow> addr \<Rightarrow> addr \<Rightarrow> addr \<Rightarrow> addr \<Rightarrow> bool" where
  "std_lexicographical_compare lt h first1 last1 first2 last2 =
     lexicographical_compare_loop lt h first1 (last1 - first1) first2 (last2 - first2)"

text \<open>What a caller's loop \<open>for (it = first; it != last; ++it)\<close> reads through \<open>*it\<close>,
  in the order it reads it.\<close>

fun traverse_loop :: "'a store \<Rightarrow> addr \<Rightarrow> nat \<Rightarrow> 'a list" where
  "traverse_loop h first 0 = []"
| "traverse_loop h first (Suc n) = h first # traverse_loop h (Suc first) n"

definition traverse :: "'a store \<Rightarrow> addr \<Rightarrow> addr \<Rightarrow> 'a list" where
  "traverse h first lastp = traverse_loop h first (lastp - first)"

subsection \<open>Member functions\<close>

text \<open>Capacity. The products are products of \<open>size_type\<close>.\<close>

definition size_1d :: "'w::len dims \<Rightarrow> 'w word" where
  "size_1d s = D1 s"

definition size_2d :: "'w::len dims \<Rightarrow> 'w word" where
  "size_2d s = D2 s"

definition size_3d :: "'w::len dims \<Rightarrow> 'w word" where
  "size_3d s = D3 s"

definition size_a :: "'w::len dims \<Rightarrow> 'w word" where
  "size_a s = D1 s * D2 s * D3 s"

definition max_size :: "'w::len dims \<Rightarrow> 'w word" where
  "max_size s = D1 s * D2 s * D3 s"

definition empty_a :: "'w::len dims \<Rightarrow> bool" where
  "empty_a s = False"

text \<open>Iterators. \<open>**elems\<close> is the array decayed twice: the address of its first
  cell, which is the address of the object. \<open>end()\<close> adds a \<open>size_type\<close> to a
  pointer.\<close>

definition begin_a :: "addr \<Rightarrow> addr" where
  "begin_a x = x"

definition end_a :: "'w::len dims \<Rightarrow> addr \<Rightarrow> addr" where
  "end_a s x = begin_a x + unat (size_a s)"

definition data :: "addr \<Rightarrow> addr" where
  "data x = x"

text \<open>\<open>front()\<close> and \<open>back()\<close> return references. The decrements of \<open>back()\<close> are
  decrements of \<open>size_type\<close>: at a zero dimension they wrap.\<close>

definition front :: "'w::len dims \<Rightarrow> addr \<Rightarrow> addr" where
  "front s x = elems_at s x 0 0 0"

definition back_a :: "'w::len dims \<Rightarrow> addr \<Rightarrow> addr" where
  "back_a s x = elems_at s x (D1 s - 1) (D2 s - 1) (D3 s - 1)"

text \<open>\<open>operator()\<close>, the access without a range check.\<close>

definition op_call :: "'w::len dims \<Rightarrow> addr \<Rightarrow> 'w word \<Rightarrow> 'w word \<Rightarrow> 'w word \<Rightarrow> addr" where
  "op_call s x dim1 dim2 dim3 = elems_at s x dim1 dim2 dim3"

text \<open>\<open>at\<close>, the access with a range check, is the one member that can leave by an
  exception. It runs in a store and returns it, with the exception or the reference.
  The \<open>const\<close> overloads of \<open>at\<close> and of \<open>operator()\<close> have the bodies of the
  other two.\<close>

definition at ::
  "'w::len dims \<Rightarrow> addr \<Rightarrow> 'w word \<Rightarrow> 'w word \<Rightarrow> 'w word \<Rightarrow> 'a store \<Rightarrow> (error + addr) \<times> 'a store" where
  "at s x dim1 dim2 dim3 h =
     (if D1 s \<le> dim1 \<or> D2 s \<le> dim2 \<or> D3 s \<le> dim3
      then (Inl (out_of_range ''array_3d: index out of range''), h)
      else (Inr (elems_at s x dim1 dim2 dim3), h))"

text \<open>\<open>swap\<close>: the other container \<open>y\<close> is passed by reference.\<close>

definition swap :: "'w::len dims \<Rightarrow> addr \<Rightarrow> addr \<Rightarrow> 'a store \<Rightarrow> 'a store" where
  "swap s x y h = std_swap_ranges (begin_a x) (end_a s x) (begin_a y) h"

text \<open>\<open>operator=\<close> from a container of \<open>T2\<close> with the same dimensions: the source
  lives in the store \<open>src\<close> of \<open>T2\<close>. It returns \<open>*this\<close>.\<close>

definition op_assign ::
  "('b \<Rightarrow> 'a) \<Rightarrow> 'w::len dims \<Rightarrow> addr \<Rightarrow> addr \<Rightarrow> 'b store \<Rightarrow> 'a store \<Rightarrow> addr \<times> 'a store" where
  "op_assign cv s x rhs src h =
     (x, std_copy cv src (begin_a rhs) (end_a s rhs) (begin_a x) h)"

text \<open>\<open>fill\<close> and its synonym \<open>assign\<close>.\<close>

definition fill :: "'w::len dims \<Rightarrow> addr \<Rightarrow> addr \<Rightarrow> 'a store \<Rightarrow> 'a store" where
  "fill s x val h = std_fill_n (elems_at s x 0 0 0) (unat (size_a s)) val h"

definition assign :: "'w::len dims \<Rightarrow> addr \<Rightarrow> addr \<Rightarrow> 'a store \<Rightarrow> 'a store" where
  "assign s x val h = fill s x val h"

subsection \<open>Comparisons\<close>

definition op_eq :: "('a \<Rightarrow> 'a \<Rightarrow> bool) \<Rightarrow> 'w::len dims \<Rightarrow> addr \<Rightarrow> addr \<Rightarrow> 'a store \<Rightarrow> bool" where
  "op_eq eq s x y h = std_equal eq h (begin_a x) (end_a s x) (begin_a y)"

definition op_lt :: "('a \<Rightarrow> 'a \<Rightarrow> bool) \<Rightarrow> 'w::len dims \<Rightarrow> addr \<Rightarrow> addr \<Rightarrow> 'a store \<Rightarrow> bool" where
  "op_lt lt s x y h =
     std_lexicographical_compare lt h (begin_a x) (end_a s x) (begin_a y) (end_a s y)"

definition op_ne :: "('a \<Rightarrow> 'a \<Rightarrow> bool) \<Rightarrow> 'w::len dims \<Rightarrow> addr \<Rightarrow> addr \<Rightarrow> 'a store \<Rightarrow> bool" where
  "op_ne eq s x y h = (\<not> op_eq eq s x y h)"

definition op_gt :: "('a \<Rightarrow> 'a \<Rightarrow> bool) \<Rightarrow> 'w::len dims \<Rightarrow> addr \<Rightarrow> addr \<Rightarrow> 'a store \<Rightarrow> bool" where
  "op_gt lt s x y h = op_lt lt s y x h"

definition op_le :: "('a \<Rightarrow> 'a \<Rightarrow> bool) \<Rightarrow> 'w::len dims \<Rightarrow> addr \<Rightarrow> addr \<Rightarrow> 'a store \<Rightarrow> bool" where
  "op_le lt s x y h = (\<not> op_lt lt s y x h)"

definition op_ge :: "('a \<Rightarrow> 'a \<Rightarrow> bool) \<Rightarrow> 'w::len dims \<Rightarrow> addr \<Rightarrow> addr \<Rightarrow> 'a store \<Rightarrow> bool" where
  "op_ge lt s x y h = (\<not> op_lt lt s x y h)"

section \<open>Facts about addresses and the loops\<close>

subsection \<open>Addresses of elements\<close>

text \<open>The three subscripts add up to the row-major offset.\<close>

lemma elems_at_offset:
  "elems_at s x i j k = x + (unat i * (unat (D2 s) * unat (D3 s)) + unat j * unat (D3 s) + unat k)"
  by (simp add: elems_at_def subscript_def)

lemma offset_bound:
  fixes a b c :: nat
  assumes "a < A" "b < B" "c < C"
  shows "a * (B * C) + b * C + c < A * B * C"
proof -
  have "b * C + c < B * C"
  proof -
    have "b * C + c < b * C + C" using assms(3) by simp
    also have "\<dots> = Suc b * C" by simp
    also have "\<dots> \<le> B * C" using assms(2) by (intro mult_le_mono1) simp
    finally show ?thesis .
  qed
  then have "a * (B * C) + b * C + c < a * (B * C) + B * C" by simp
  also have "\<dots> = Suc a * (B * C)" by simp
  also have "\<dots> \<le> A * (B * C)" using assms(1) by (intro mult_le_mono1) simp
  finally show ?thesis by (simp add: mult.assoc)
qed

lemma unat_size_a:
  fixes s :: "'w::len dims"
  assumes "valid_dims s"
  shows "unat (size_a s) = unat (D1 s) * unat (D2 s) * unat (D3 s)"
proof (cases "D3 s = 0")
  case True
  then show ?thesis by (simp add: size_a_def)
next
  case False
  then have pos: "0 < unat (D3 s)" by (simp add: unat_gt_0)
  have "unat (D1 s) * unat (D2 s) \<le> unat (D1 s) * unat (D2 s) * unat (D3 s)"
    using pos by simp
  also have "\<dots> < 2 ^ LENGTH('w)" using assms by (simp add: valid_dims_def)
  finally have 12: "unat (D1 s * D2 s) = unat (D1 s) * unat (D2 s)"
    by (simp add: unat_mult_lem)
  have "unat (D1 s * D2 s) * unat (D3 s) < 2 ^ LENGTH('w)"
    using assms by (simp add: 12 valid_dims_def)
  then have "unat (D1 s * D2 s * D3 s) = unat (D1 s * D2 s) * unat (D3 s)"
    by (simp add: unat_mult_lem)
  then show ?thesis by (simp add: size_a_def 12)
qed

lemma range_size: "end_a s x - begin_a x = unat (size_a s)"
  by (simp add: end_a_def)

lemma range_size_addr: "end_a s x - x = unat (size_a s)"
  by (simp add: end_a_def begin_a_def)

lemma offset_in_size:
  fixes s :: "'w::len dims"
  assumes "valid_dims s" "i < D1 s" "j < D2 s" "k < D3 s"
  shows "unat i * (unat (D2 s) * unat (D3 s)) + unat j * unat (D3 s) + unat k < unat (size_a s)"
proof -
  from assms(2-4) have "unat i < unat (D1 s)" "unat j < unat (D2 s)" "unat k < unat (D3 s)"
    by (simp_all add: word_less_nat_alt)
  then have "unat i * (unat (D2 s) * unat (D3 s)) + unat j * unat (D3 s) + unat k
             < unat (D1 s) * unat (D2 s) * unat (D3 s)"
    by (rule offset_bound)
  then show ?thesis by (simp add: unat_size_a [OF assms(1)])
qed

text \<open>Conversely, every flat position below \<open>size()\<close> is the offset of a valid
  coordinate triple.\<close>

lemma offset_decompose:
  fixes p B C :: nat
  assumes "p < A * B * C"
  shows "p div (B * C) < A" and "(p div C) mod B < B" and "p mod C < C"
    and "p = p div (B * C) * (B * C) + (p div C) mod B * C + p mod C"
proof -
  from assms have pos: "0 < B" "0 < C"
    by (cases "B = 0"; cases "C = 0"; simp)+
  from assms have "p < A * (B * C)" by (simp add: mult.assoc)
  then show "p div (B * C) < A"
    using pos by (simp add: less_mult_imp_div_less)
  show "(p div C) mod B < B" using pos by simp
  show "p mod C < C" using pos by simp
  define q where "q = p div C"
  have dv: "p div (B * C) = q div B"
    by (simp only: q_def mult.commute [of B C] div_mult2_eq)
  have "p = q * C + p mod C" by (simp add: q_def)
  also have "q = q div B * B + q mod B" by simp
  also have "(q div B * B + q mod B) * C = q div B * (B * C) + q mod B * C"
    by (simp only: add_mult_distrib mult.assoc)
  finally show "p = p div (B * C) * (B * C) + (p div C) mod B * C + p mod C"
    by (simp only: dv) (simp only: q_def)
qed

lemma word_below:
  fixes d :: "'w::len word"
  assumes "n < unat d"
  shows "of_nat n < d" and "unat (of_nat n :: 'w word) = n"
proof -
  have "n < 2 ^ LENGTH('w)"
    using assms unsigned_less [of d] by (rule less_trans)
  then show u: "unat (of_nat n :: 'w word) = n"
    by (simp add: unat_of_nat)
  show "of_nat n < d"
    using assms by (simp add: word_less_nat_alt u)
qed

lemma offset_onto:
  fixes s :: "'w::len dims"
  assumes "valid_dims s" "p < unat (size_a s)"
  shows "\<exists>i j k. i < D1 s \<and> j < D2 s \<and> k < D3 s \<and> elems_at s x i j k = x + p"
proof -
  let ?B = "unat (D2 s)" and ?C = "unat (D3 s)"
  from assms have p: "p < unat (D1 s) * ?B * ?C"
    by (simp add: unat_size_a)
  let ?i = "of_nat (p div (?B * ?C)) :: 'w word"
  let ?j = "of_nat ((p div ?C) mod ?B) :: 'w word"
  let ?k = "of_nat (p mod ?C) :: 'w word"
  note d = offset_decompose [OF p]
  have "?i < D1 s" "?j < D2 s" "?k < D3 s"
    by (rule word_below(1) [OF d(1)], rule word_below(1) [OF d(2)], rule word_below(1) [OF d(3)])
  moreover have "elems_at s x ?i ?j ?k = x + p"
    unfolding elems_at_offset word_below(2) [OF d(1)] word_below(2) [OF d(2)]
      word_below(2) [OF d(3)]
    using d(4) by simp
  ultimately show ?thesis by blast
qed

text \<open>With no zero dimension, \<open>back()\<close> is the last cell of the range.\<close>

lemma back_offset:
  fixes s :: "'w::len dims"
  assumes "valid_dims s" "D1 s \<noteq> 0" "D2 s \<noteq> 0" "D3 s \<noteq> 0"
  shows "back_a s x = begin_a x + (unat (size_a s) - 1)" and "0 < unat (size_a s)"
proof -
  obtain a b c where abc: "unat (D1 s) = Suc a" "unat (D2 s) = Suc b" "unat (D3 s) = Suc c"
    using assms(2-4) by (metis unat_gt_0 gr0_implies_Suc)
  have m: "unat (D1 s - 1) = a" "unat (D2 s - 1) = b" "unat (D3 s - 1) = c"
    using assms(2-4) abc by (simp_all add: unat_minus_one)
  have sz: "unat (size_a s) = Suc a * Suc b * Suc c"
    by (simp add: unat_size_a [OF assms(1)] abc)
  show "0 < unat (size_a s)" by (simp add: sz)
  have "a * (Suc b * Suc c) + b * Suc c + c = Suc a * Suc b * Suc c - 1"
    by (simp add: algebra_simps)
  then show "back_a s x = begin_a x + (unat (size_a s) - 1)"
    by (simp only: back_a_def elems_at_offset m abc sz begin_a_def)
qed

subsection \<open>What each loop leaves in a cell\<close>

lemma length_traverse_loop: "length (traverse_loop h first n) = n"
  by (induction n arbitrary: first) simp_all

lemma nth_traverse_loop: "p < n \<Longrightarrow> traverse_loop h first n ! p = h (first + p)"
proof (induction n arbitrary: first p)
  case 0
  then show ?case by simp
next
  case (Suc n)
  show ?case
  proof (cases p)
    case 0
    then show ?thesis by simp
  next
    case (Suc q)
    with Suc.prems have "q < n" by simp
    from Suc.IH [OF this, of "Suc first"] Suc show ?thesis by simp
  qed
qed

lemma traverse_loop_nth_eq:
  "traverse_loop h first n = map (\<lambda>p. h (first + p)) [0..<n]"
  by (rule nth_equalityI) (simp_all add: length_traverse_loop nth_traverse_loop)

lemma std_fill_n_cell:
  "std_fill_n first n val h a = (if first \<le> a \<and> a < first + n then h val else h a)"
proof (induction n arbitrary: first h)
  case 0
  then show ?case by auto
next
  case (Suc n)
  have "std_fill_n first (Suc n) val h a = std_fill_n (Suc first) n val (h(first := h val)) a"
    by simp
  also have "\<dots> = (if Suc first \<le> a \<and> a < Suc first + n then (h(first := h val)) val
                   else (h(first := h val)) a)"
    by (rule Suc.IH)
  also have "\<dots> = (if first \<le> a \<and> a < first + Suc n then h val else h a)"
    by (cases "a = first") auto
  finally show ?case .
qed

lemma copy_loop_cell:
  "copy_loop cv src first n result h a =
     (if result \<le> a \<and> a < result + n then cv (src (first + (a - result))) else h a)"
proof (induction n arbitrary: first result h)
  case 0
  then show ?case by auto
next
  case (Suc n)
  have "copy_loop cv src first (Suc n) result h a =
        copy_loop cv src (Suc first) n (Suc result) (h(result := cv (src first))) a"
    by simp
  also have "\<dots> = (if Suc result \<le> a \<and> a < Suc result + n
                   then cv (src (Suc first + (a - Suc result)))
                   else (h(result := cv (src first))) a)"
    by (rule Suc.IH)
  also have "\<dots> = (if result \<le> a \<and> a < result + Suc n
                   then cv (src (first + (a - result))) else h a)"
    by (cases "a = result") (auto simp: Suc_diff_Suc)
  finally show ?case .
qed

lemma std_swap_same: "std_swap a a h = h"
  by (simp add: std_swap_def)

lemma swap_ranges_loop_same: "swap_ranges_loop first n first h = h"
  by (induction n arbitrary: first) (simp_all add: std_swap_same)

lemma swap_ranges_loop_cell:
  assumes "first1 + n \<le> first2 \<or> first2 + n \<le> first1"
  shows "swap_ranges_loop first1 n first2 h a =
     (if first1 \<le> a \<and> a < first1 + n then h (first2 + (a - first1))
      else if first2 \<le> a \<and> a < first2 + n then h (first1 + (a - first2))
      else h a)"
  using assms
proof (induction n arbitrary: first1 first2 h)
  case 0
  then show ?case by auto
next
  case (Suc n)
  let ?h = "std_swap first1 first2 h"
  from Suc.prems have d: "Suc first1 + n \<le> Suc first2 \<or> Suc first2 + n \<le> Suc first1"
    by auto
  have "swap_ranges_loop first1 (Suc n) first2 h a =
        swap_ranges_loop (Suc first1) n (Suc first2) ?h a"
    by simp
  also have "\<dots> = (if Suc first1 \<le> a \<and> a < Suc first1 + n then ?h (Suc first2 + (a - Suc first1))
      else if Suc first2 \<le> a \<and> a < Suc first2 + n then ?h (Suc first1 + (a - Suc first2))
      else ?h a)"
    by (rule Suc.IH [OF d])
  also have "\<dots> = (if first1 \<le> a \<and> a < first1 + Suc n then h (first2 + (a - first1))
      else if first2 \<le> a \<and> a < first2 + Suc n then h (first1 + (a - first2))
      else h a)"
    using Suc.prems
    by (cases "a = first1"; cases "a = first2") (auto simp: std_swap_def Suc_diff_Suc)
  finally show ?case .
qed

subsection \<open>What each comparison loop decides\<close>

lemma equal_loop_iff:
  "equal_loop eq h first1 n first2 \<longleftrightarrow> (\<forall>p<n. eq (h (first1 + p)) (h (first2 + p)))"
proof (induction n arbitrary: first1 first2)
  case 0
  then show ?case by simp
next
  case (Suc n)
  have "(\<forall>p<Suc n. eq (h (first1 + p)) (h (first2 + p))) \<longleftrightarrow>
        eq (h first1) (h first2) \<and> (\<forall>p<n. eq (h (Suc first1 + p)) (h (Suc first2 + p)))"
    by (simp add: All_less_Suc2) 
  with Suc.IH [of "Suc first1" "Suc first2"] show ?case by auto
qed

lemma lexicographical_compare_loop_iff:
  "lexicographical_compare_loop lt h first1 n first2 n \<longleftrightarrow>
     (\<exists>p<n. lt (h (first1 + p)) (h (first2 + p)) \<and>
        (\<forall>q<p. \<not> lt (h (first1 + q)) (h (first2 + q)) \<and> \<not> lt (h (first2 + q)) (h (first1 + q))))"
proof (induction n arbitrary: first1 first2)
  case 0
  then show ?case by simp
next
  case (Suc n)
  let ?P = "\<lambda>f1 f2 p. lt (h (f1 + p)) (h (f2 + p)) \<and>
        (\<forall>q<p. \<not> lt (h (f1 + q)) (h (f2 + q)) \<and> \<not> lt (h (f2 + q)) (h (f1 + q)))"
  have split: "(\<exists>p<Suc n. ?P first1 first2 p) \<longleftrightarrow>
        lt (h first1) (h first2) \<or>
        (\<not> lt (h first1) (h first2) \<and> \<not> lt (h first2) (h first1) \<and>
         (\<exists>p<n. ?P (Suc first1) (Suc first2) p))"
    by (simp add: Ex_less_Suc2 All_less_Suc2) blast
  show ?case
    unfolding split using Suc.IH [of "Suc first1" "Suc first2"] by auto
qed

section \<open>Capacity\<close>

text \<open>
  Claim C8: \<open>size()\<close> and \<open>max_size()\<close> both return \<open>D1*D2*D3\<close>; \<open>size_1d()\<close>,
  \<open>size_2d()\<close>, \<open>size_3d()\<close> return \<open>D1\<close>, \<open>D2\<close>, \<open>D3\<close>; \<open>empty()\<close> returns false for
  every instantiation, also for one with a zero dimension, whose \<open>size()\<close> is 0.
\<close>

theorem capacity_queries:
  fixes s :: "'w::len dims"
  shows "size_a s = D1 s * D2 s * D3 s \<and> max_size s = D1 s * D2 s * D3 s
       \<and> size_1d s = D1 s \<and> size_2d s = D2 s \<and> size_3d s = D3 s
       \<and> \<not> empty_a s
       \<and> (D1 s = 0 \<or> D2 s = 0 \<or> D3 s = 0 \<longrightarrow> size_a s = 0 \<and> \<not> empty_a s)"
  by (auto simp: size_a_def max_size_def size_1d_def size_2d_def size_3d_def empty_a_def)

theorem capacity_queries_witness:
  "size_a \<lparr>D1 = 2, D2 = 0, D3 = 4 :: 64 word\<rparr> = 0
   \<and> \<not> empty_a \<lparr>D1 = 2, D2 = 0, D3 = 4 :: 64 word\<rparr>"
  using capacity_queries [of "\<lparr>D1 = 2, D2 = 0, D3 = 4 :: 64 word\<rparr>"] by simp

section \<open>Element access\<close>

text \<open>
  Claim C1: for every coordinate triple \<open>(i,j,k)\<close>, \<open>at(i,j,k)\<close> fails with the
  out-of-range error and its message if and only if \<open>i >= D1\<close> or \<open>j >= D2\<close> or
  \<open>k >= D3\<close>; for every valid triple it returns the reference that
  \<open>operator()(i,j,k)\<close> returns, so the same element.
\<close>

theorem at_checked_access:
  fixes s :: "'w::len dims" and h :: "'a store"
  shows "(fst (at s x i j k h) = Inl (out_of_range ''array_3d: index out of range'')
            \<longleftrightarrow> D1 s \<le> i \<or> D2 s \<le> j \<or> D3 s \<le> k)
       \<and> (isl (fst (at s x i j k h)) \<longleftrightarrow> D1 s \<le> i \<or> D2 s \<le> j \<or> D3 s \<le> k)
       \<and> (i < D1 s \<and> j < D2 s \<and> k < D3 s \<longrightarrow>
            fst (at s x i j k h) = Inr (op_call s x i j k))"
  by (auto simp: at_def op_call_def)

theorem at_checked_access_witness:
  "fst (at \<lparr>D1 = 2, D2 = 3, D3 = 4 :: 64 word\<rparr> 100 2 0 0 (\<lambda>a. 0::int))
     = Inl (out_of_range ''array_3d: index out of range'')
   \<and> fst (at \<lparr>D1 = 2, D2 = 3, D3 = 4 :: 64 word\<rparr> 100 1 2 3 (\<lambda>a. 0::int))
     = Inr (op_call \<lparr>D1 = 2, D2 = 3, D3 = 4 :: 64 word\<rparr> 100 1 2 3)
   \<and> op_call \<lparr>D1 = 2, D2 = 3, D3 = 4 :: 64 word\<rparr> 100 1 2 3 = 123"
  using at_checked_access [where s = "\<lparr>D1 = 2, D2 = 3, D3 = 4 :: 64 word\<rparr>"
      and x = 100 and i = 2 and j = 0 and k = 0 and h = "\<lambda>a. 0::int"]
    at_checked_access [where s = "\<lparr>D1 = 2, D2 = 3, D3 = 4 :: 64 word\<rparr>"
      and x = 100 and i = 1 and j = 2 and k = 3 and h = "\<lambda>a. 0::int"]
  by (simp add: op_call_def elems_at_def subscript_def)


text \<open>
  Claim C9: a call of \<open>at(i,j,k)\<close> modifies no element; in particular the store is
  what it was when the call fails with the out-of-range error.
\<close>

theorem at_preserves_store:
  fixes s :: "'w::len dims" and h :: "'a store"
  shows "snd (at s x i j k h) = h
       \<and> (isl (fst (at s x i j k h)) \<longrightarrow> (\<forall>a. snd (at s x i j k h) a = h a))"
  by (simp add: at_def)

theorem at_preserves_store_witness:
  "isl (fst (at \<lparr>D1 = 2, D2 = 3, D3 = 4 :: 64 word\<rparr> 100 0 3 0 (\<lambda>a. int a)))
   \<and> snd (at \<lparr>D1 = 2, D2 = 3, D3 = 4 :: 64 word\<rparr> 100 0 3 0 (\<lambda>a. int a)) 105 = 105"
  using at_preserves_store [where s = "\<lparr>D1 = 2, D2 = 3, D3 = 4 :: 64 word\<rparr>"
      and x = 100 and i = 0 and j = 3 and k = 0 and h = "\<lambda>a. int a"]
  by (simp add: at_def)


section \<open>Iteration\<close>

text \<open>
  Claim C2: iterating from \<open>begin()\<close> to \<open>end()\<close> yields exactly
  \<open>size() = D1*D2*D3\<close> elements in row-major order: the element at flat position
  \<open>i*D2*D3 + j*D3 + k\<close> is the element at the coordinates \<open>(i,j,k)\<close>;
  \<open>front()\<close> is the first element yielded and \<open>back()\<close>, the element at
  \<open>(D1-1,D2-1,D3-1)\<close>, the last. The first and the last element exist when no
  dimension is zero.
\<close>

theorem iteration_row_major:
  fixes s :: "'w::len dims" and h :: "'a store"
  shows "length (traverse h (begin_a x) (end_a s x)) = unat (size_a s)
       \<and> size_a s = D1 s * D2 s * D3 s
       \<and> (valid_dims s \<longrightarrow> unat (size_a s) = unat (D1 s) * unat (D2 s) * unat (D3 s))
       \<and> (valid_dims s \<and> i < D1 s \<and> j < D2 s \<and> k < D3 s \<longrightarrow>
            unat i * unat (D2 s) * unat (D3 s) + unat j * unat (D3 s) + unat k < unat (size_a s)
          \<and> traverse h (begin_a x) (end_a s x)
              ! (unat i * unat (D2 s) * unat (D3 s) + unat j * unat (D3 s) + unat k)
            = h (op_call s x i j k))
       \<and> (valid_dims s \<and> D1 s \<noteq> 0 \<and> D2 s \<noteq> 0 \<and> D3 s \<noteq> 0 \<longrightarrow>
            h (front s x) = hd (traverse h (begin_a x) (end_a s x))
          \<and> h (back_a s x) = last (traverse h (begin_a x) (end_a s x)))"
proof (intro conjI impI)
  let ?xs = "traverse h (begin_a x) (end_a s x)"
  show len: "length ?xs = unat (size_a s)"
    by (simp add: traverse_def range_size length_traverse_loop)
  show "size_a s = D1 s * D2 s * D3 s"
    by (simp add: size_a_def)
  show "unat (size_a s) = unat (D1 s) * unat (D2 s) * unat (D3 s)" if "valid_dims s"
    using that by (rule unat_size_a)
  {
    assume ijk: "valid_dims s \<and> i < D1 s \<and> j < D2 s \<and> k < D3 s"
    let ?p = "unat i * unat (D2 s) * unat (D3 s) + unat j * unat (D3 s) + unat k"
    have p: "?p = unat i * (unat (D2 s) * unat (D3 s)) + unat j * unat (D3 s) + unat k"
      by (simp add: mult.assoc)
    show lt: "?p < unat (size_a s)"
      unfolding p using ijk by (simp add: offset_in_size)
    have "?xs ! ?p = h (begin_a x + ?p)"
      using lt by (simp add: traverse_def range_size nth_traverse_loop)
    also have "begin_a x + ?p = op_call s x i j k"
      unfolding p by (simp add: op_call_def elems_at_offset begin_a_def)
    finally show "?xs ! ?p = h (op_call s x i j k)" .
  }
  {
    assume nz: "valid_dims s \<and> D1 s \<noteq> 0 \<and> D2 s \<noteq> 0 \<and> D3 s \<noteq> 0"
    then have pos: "0 < unat (size_a s)" and bk: "back_a s x = begin_a x + (unat (size_a s) - 1)"
      using back_offset(2) [of s] back_offset(1) [of s x] by simp_all
    from pos len have ne: "?xs \<noteq> []" by auto
    have "hd ?xs = ?xs ! 0" using ne by (simp add: hd_conv_nth)
    also have "\<dots> = h (begin_a x + 0)"
      using pos by (simp only: traverse_def range_size nth_traverse_loop)
    finally show "h (front s x) = hd ?xs"
      by (simp add: front_def elems_at_offset begin_a_def)
    have "last ?xs = ?xs ! (unat (size_a s) - 1)" using ne len by (simp add: last_conv_nth)
    also have "\<dots> = h (begin_a x + (unat (size_a s) - 1))"
      using pos by (simp only: traverse_def range_size) (simp add: nth_traverse_loop)
    finally show "h (back_a s x) = last ?xs" by (simp add: bk)
  }
qed

theorem iteration_row_major_witness:
  "valid_dims \<lparr>D1 = 2, D2 = 2, D3 = 2 :: 64 word\<rparr>
   \<and> length (traverse (\<lambda>a. int a) (begin_a 10) (end_a \<lparr>D1 = 2, D2 = 2, D3 = 2 :: 64 word\<rparr> 10)) = 8
   \<and> traverse (\<lambda>a. int a) (begin_a 10) (end_a \<lparr>D1 = 2, D2 = 2, D3 = 2 :: 64 word\<rparr> 10) ! 5
     = int (op_call \<lparr>D1 = 2, D2 = 2, D3 = 2 :: 64 word\<rparr> 10 1 0 1)
   \<and> int (front \<lparr>D1 = 2, D2 = 2, D3 = 2 :: 64 word\<rparr> 10)
     = hd (traverse (\<lambda>a. int a) (begin_a 10) (end_a \<lparr>D1 = 2, D2 = 2, D3 = 2 :: 64 word\<rparr> 10))
   \<and> int (back_a \<lparr>D1 = 2, D2 = 2, D3 = 2 :: 64 word\<rparr> 10)
     = last (traverse (\<lambda>a. int a) (begin_a 10) (end_a \<lparr>D1 = 2, D2 = 2, D3 = 2 :: 64 word\<rparr> 10))
   \<and> traverse (\<lambda>a. int a) (begin_a 10) (end_a \<lparr>D1 = 2, D2 = 2, D3 = 2 :: 64 word\<rparr> 10)
     = [10, 11, 12, 13, 14, 15, 16, 17]
   \<and> traverse ((\<lambda>a. 0::int)
        (op_call \<lparr>D1 = 2, D2 = 2, D3 = 2 :: 64 word\<rparr> 10 0 0 0 := 1,
         op_call \<lparr>D1 = 2, D2 = 2, D3 = 2 :: 64 word\<rparr> 10 0 0 1 := 2,
         op_call \<lparr>D1 = 2, D2 = 2, D3 = 2 :: 64 word\<rparr> 10 0 1 0 := 3,
         op_call \<lparr>D1 = 2, D2 = 2, D3 = 2 :: 64 word\<rparr> 10 0 1 1 := 4,
         op_call \<lparr>D1 = 2, D2 = 2, D3 = 2 :: 64 word\<rparr> 10 1 0 0 := 5,
         op_call \<lparr>D1 = 2, D2 = 2, D3 = 2 :: 64 word\<rparr> 10 1 0 1 := 6,
         op_call \<lparr>D1 = 2, D2 = 2, D3 = 2 :: 64 word\<rparr> 10 1 1 0 := 7,
         op_call \<lparr>D1 = 2, D2 = 2, D3 = 2 :: 64 word\<rparr> 10 1 1 1 := 8))
        (begin_a 10) (end_a \<lparr>D1 = 2, D2 = 2, D3 = 2 :: 64 word\<rparr> 10)
     = [1, 2, 3, 4, 5, 6, 7, 8]"
proof -
  have v: "valid_dims \<lparr>D1 = 2, D2 = 2, D3 = 2 :: 64 word\<rparr>"
    by (simp add: valid_dims_def)
  have t: "traverse (\<lambda>a. int a) (begin_a 10) (end_a \<lparr>D1 = 2, D2 = 2, D3 = 2 :: 64 word\<rparr> 10)
     = [10, 11, 12, 13, 14, 15, 16, 17]"
    by code_simp
  have w: "traverse ((\<lambda>a. 0::int)
        (op_call \<lparr>D1 = 2, D2 = 2, D3 = 2 :: 64 word\<rparr> 10 0 0 0 := 1,
         op_call \<lparr>D1 = 2, D2 = 2, D3 = 2 :: 64 word\<rparr> 10 0 0 1 := 2,
         op_call \<lparr>D1 = 2, D2 = 2, D3 = 2 :: 64 word\<rparr> 10 0 1 0 := 3,
         op_call \<lparr>D1 = 2, D2 = 2, D3 = 2 :: 64 word\<rparr> 10 0 1 1 := 4,
         op_call \<lparr>D1 = 2, D2 = 2, D3 = 2 :: 64 word\<rparr> 10 1 0 0 := 5,
         op_call \<lparr>D1 = 2, D2 = 2, D3 = 2 :: 64 word\<rparr> 10 1 0 1 := 6,
         op_call \<lparr>D1 = 2, D2 = 2, D3 = 2 :: 64 word\<rparr> 10 1 1 0 := 7,
         op_call \<lparr>D1 = 2, D2 = 2, D3 = 2 :: 64 word\<rparr> 10 1 1 1 := 8))
        (begin_a 10) (end_a \<lparr>D1 = 2, D2 = 2, D3 = 2 :: 64 word\<rparr> 10)
     = [1, 2, 3, 4, 5, 6, 7, 8]"
    by code_simp
  from v t w iteration_row_major [where s = "\<lparr>D1 = 2, D2 = 2, D3 = 2 :: 64 word\<rparr>" and x = 10 and i = 1 and j = 0 and k = 1
        and h = "\<lambda>a. int a"]
  show ?thesis by simp
qed

section \<open>Converting assignment\<close>

text \<open>
  Claim C3: converting assignment from a container of \<open>T2\<close> with the same dimensions
  sets the destination element at every flat position to the conversion to \<open>T\<close> of
  the source element at that position, so the flat order and every coordinate position
  are kept. It returns the destination and writes no cell outside it.
\<close>

theorem converting_assignment:
  fixes s :: "'w::len dims" and src :: "'b store" and h :: "'a store" and cv :: "'b \<Rightarrow> 'a"
  shows "fst (op_assign cv s x rhs src h) = x
       \<and> (p < unat (size_a s) \<longrightarrow>
            snd (op_assign cv s x rhs src h) (begin_a x + p) = cv (src (begin_a rhs + p)))
       \<and> traverse (snd (op_assign cv s x rhs src h)) (begin_a x) (end_a s x)
           = map cv (traverse src (begin_a rhs) (end_a s rhs))
       \<and> (valid_dims s \<and> i < D1 s \<and> j < D2 s \<and> k < D3 s \<longrightarrow>
            snd (op_assign cv s x rhs src h) (op_call s x i j k) = cv (src (op_call s rhs i j k)))
       \<and> (a < begin_a x \<or> end_a s x \<le> a \<longrightarrow> snd (op_assign cv s x rhs src h) a = h a)"
proof (intro conjI impI)
  let ?h = "snd (op_assign cv s x rhs src h)"
  let ?n = "unat (size_a s)"
  have cell: "?h b = (if x \<le> b \<and> b < x + ?n then cv (src (rhs + (b - x))) else h b)" for b
    by (simp add: op_assign_def std_copy_def range_size_addr copy_loop_cell begin_a_def)
  show "fst (op_assign cv s x rhs src h) = x"
    by (simp add: op_assign_def)
  show "?h (begin_a x + p) = cv (src (begin_a rhs + p))" if "p < ?n"
    using that by (simp add: cell begin_a_def)
  show "traverse ?h (begin_a x) (end_a s x) = map cv (traverse src (begin_a rhs) (end_a s rhs))"
    by (simp add: traverse_def range_size_addr traverse_loop_nth_eq cell begin_a_def)
  show "?h (op_call s x i j k) = cv (src (op_call s rhs i j k))"
    if "valid_dims s \<and> i < D1 s \<and> j < D2 s \<and> k < D3 s"
    using that offset_in_size [of s i j k]
    by (simp add: cell op_call_def elems_at_offset)
  show "?h a = h a" if "a < begin_a x \<or> end_a s x \<le> a"
    using that by (auto simp: cell begin_a_def end_a_def)
qed

theorem converting_assignment_witness:
  "traverse (snd (op_assign int \<lparr>D1 = 2, D2 = 2, D3 = 2 :: 64 word\<rparr> 0 20
              (\<lambda>a. a - 19) (\<lambda>a. 0)))
     (begin_a 0) (end_a \<lparr>D1 = 2, D2 = 2, D3 = 2 :: 64 word\<rparr> 0)
     = [1, 2, 3, 4, 5, 6, 7, 8]
   \<and> snd (op_assign int \<lparr>D1 = 2, D2 = 2, D3 = 2 :: 64 word\<rparr> 0 20 (\<lambda>a. a - 19) (\<lambda>a. 0))
       (begin_a 0 + 6) = 7
   \<and> snd (op_assign int \<lparr>D1 = 2, D2 = 2, D3 = 2 :: 64 word\<rparr> 0 20 (\<lambda>a. a - 19) (\<lambda>a. 0))
       (op_call \<lparr>D1 = 2, D2 = 2, D3 = 2 :: 64 word\<rparr> 0 1 1 0) = 7
   \<and> snd (op_assign int \<lparr>D1 = 2, D2 = 2, D3 = 2 :: 64 word\<rparr> 0 20 (\<lambda>a. a - 19) (\<lambda>a. 0)) 8
     = 0"
proof -
  have v: "valid_dims \<lparr>D1 = 2, D2 = 2, D3 = 2 :: 64 word\<rparr>"
    by (simp add: valid_dims_def)
  have t: "map int (traverse (\<lambda>a. a - 19) (begin_a 20) (end_a \<lparr>D1 = 2, D2 = 2, D3 = 2 :: 64 word\<rparr> 20))
     = [1, 2, 3, 4, 5, 6, 7, 8]"
    by code_simp
  have e: "end_a \<lparr>D1 = 2, D2 = 2, D3 = 2 :: 64 word\<rparr> 0 = 8"
    "op_call \<lparr>D1 = 2, D2 = 2, D3 = 2 :: 64 word\<rparr> 20 1 1 0 = 26"
    by code_simp+
  from converting_assignment [where cv = int
      and s = "\<lparr>D1 = 2, D2 = 2, D3 = 2 :: 64 word\<rparr>" and x = 0 and rhs = 20
      and src = "\<lambda>a. a - 19" and h = "\<lambda>a. 0" and p = 6 and i = 1 and j = 1 and k = 0
      and a = 8]
  show ?thesis by (simp add: v t [unfolded begin_a_def] e begin_a_def size_a_def)
qed

section \<open>Bulk operations\<close>

text \<open>
  Claim C6: \<open>fill(v)\<close> assigns \<open>v\<close> to every one of the \<open>D1*D2*D3\<close> elements, so
  iteration afterwards yields \<open>v\<close> at every position and \<open>front() == back() == v\<close>
  when \<open>D1 = D2 = D3 = 1\<close>; \<open>assign(v)\<close> leaves the same store as \<open>fill(v)\<close>.
  The value assigned is the one the reference \<open>val\<close> held before the call, also when
  it refers to an element of the container itself. Cells outside the container keep
  their values.
\<close>

theorem fill_assigns_all:
  fixes s :: "'w::len dims" and h :: "'a store"
  shows "(p < unat (size_a s) \<longrightarrow> fill s x val h (begin_a x + p) = h val)
       \<and> traverse (fill s x val h) (begin_a x) (end_a s x) = replicate (unat (size_a s)) (h val)
       \<and> (valid_dims s \<and> i < D1 s \<and> j < D2 s \<and> k < D3 s \<longrightarrow>
            fill s x val h (op_call s x i j k) = h val)
       \<and> (D1 s = 1 \<and> D2 s = 1 \<and> D3 s = 1 \<longrightarrow>
            fill s x val h (front s x) = h val \<and> fill s x val h (back_a s x) = h val)
       \<and> (a < begin_a x \<or> end_a s x \<le> a \<longrightarrow> fill s x val h a = h a)
       \<and> assign s x val h = fill s x val h"
proof (intro conjI impI)
  let ?h = "fill s x val h"
  let ?n = "unat (size_a s)"
  have cell: "?h b = (if x \<le> b \<and> b < x + ?n then h val else h b)" for b
    by (simp add: fill_def elems_at_offset std_fill_n_cell)
  show "?h (begin_a x + p) = h val" if "p < ?n"
    using that by (simp add: cell begin_a_def)
  show "traverse ?h (begin_a x) (end_a s x) = replicate ?n (h val)"
    by (rule nth_equalityI)
      (simp_all add: traverse_def range_size_addr begin_a_def length_traverse_loop
        nth_traverse_loop cell)
  show "?h (op_call s x i j k) = h val"
    if "valid_dims s \<and> i < D1 s \<and> j < D2 s \<and> k < D3 s"
    using that offset_in_size [of s i j k]
    by (simp add: cell op_call_def elems_at_offset)
  show "?h (front s x) = h val" if "D1 s = 1 \<and> D2 s = 1 \<and> D3 s = 1"
    using that by (simp add: cell front_def elems_at_offset size_a_def)
  show "?h (back_a s x) = h val" if "D1 s = 1 \<and> D2 s = 1 \<and> D3 s = 1"
    using that by (simp add: cell back_a_def elems_at_offset size_a_def)
  show "?h a = h a" if "a < begin_a x \<or> end_a s x \<le> a"
    using that by (auto simp: cell begin_a_def end_a_def)
  show "assign s x val h = ?h"
    by (simp add: assign_def)
qed

theorem fill_assigns_all_witness:
  "fill \<lparr>D1 = 2, D2 = 2, D3 = 2 :: 64 word\<rparr> 10 12 (\<lambda>a. int a) (begin_a 10 + 7) = 12
   \<and> traverse (fill \<lparr>D1 = 2, D2 = 2, D3 = 2 :: 64 word\<rparr> 10 12 (\<lambda>a. int a))
        (begin_a 10) (end_a \<lparr>D1 = 2, D2 = 2, D3 = 2 :: 64 word\<rparr> 10)
     = [12, 12, 12, 12, 12, 12, 12, 12]
   \<and> fill \<lparr>D1 = 2, D2 = 2, D3 = 2 :: 64 word\<rparr> 10 12 (\<lambda>a. int a)
        (op_call \<lparr>D1 = 2, D2 = 2, D3 = 2 :: 64 word\<rparr> 10 1 0 1) = 12
   \<and> fill \<lparr>D1 = 2, D2 = 2, D3 = 2 :: 64 word\<rparr> 10 12 (\<lambda>a. int a) 18 = 18
   \<and> fill \<lparr>D1 = 1, D2 = 1, D3 = 1 :: 64 word\<rparr> 10 3 (\<lambda>a. int a)
        (front \<lparr>D1 = 1, D2 = 1, D3 = 1 :: 64 word\<rparr> 10) = 3
   \<and> fill \<lparr>D1 = 1, D2 = 1, D3 = 1 :: 64 word\<rparr> 10 3 (\<lambda>a. int a)
        (back_a \<lparr>D1 = 1, D2 = 1, D3 = 1 :: 64 word\<rparr> 10) = 3"
proof -
  have v: "valid_dims \<lparr>D1 = 2, D2 = 2, D3 = 2 :: 64 word\<rparr>"
    by (simp add: valid_dims_def)
  have e: "end_a \<lparr>D1 = 2, D2 = 2, D3 = 2 :: 64 word\<rparr> 10 = 18"
    "unat (size_a \<lparr>D1 = 2, D2 = 2, D3 = 2 :: 64 word\<rparr>) = 8"
    by (simp_all add: end_a_def begin_a_def size_a_def)
  have r: "replicate 8 (12::int) = [12, 12, 12, 12, 12, 12, 12, 12]"
    by code_simp
  from fill_assigns_all [where s = "\<lparr>D1 = 2, D2 = 2, D3 = 2 :: 64 word\<rparr>" and x = 10
      and val = 12 and h = "\<lambda>a. int a" and p = 7 and i = 1 and j = 0 and k = 1 and a = 18]
    fill_assigns_all [where s = "\<lparr>D1 = 1, D2 = 1, D3 = 1 :: 64 word\<rparr>" and x = 10
      and val = 3 and h = "\<lambda>a. int a" and p = 0 and i = 0 and j = 0 and k = 0 and a = 0]
  show ?thesis by (simp add: v e r)
qed

text \<open>
  Claim C7: for two distinct containers, \<open>swap\<close> exchanges the contents element by
  element: afterwards each holds at every flat position what the other held before,
  and a second \<open>swap\<close> restores both. Two distinct objects of one type occupy
  disjoint ranges of cells, which is the hypothesis. The second \<open>swap\<close> restores the
  whole store, since no cell outside the two containers is written.
\<close>

theorem swap_exchanges:
  fixes s :: "'w::len dims" and h :: "'a store"
  assumes "end_a s x \<le> begin_a y \<or> end_a s y \<le> begin_a x"
  shows "(p < unat (size_a s) \<longrightarrow>
            swap s x y h (begin_a x + p) = h (begin_a y + p)
          \<and> swap s x y h (begin_a y + p) = h (begin_a x + p))
       \<and> traverse (swap s x y h) (begin_a x) (end_a s x) = traverse h (begin_a y) (end_a s y)
       \<and> traverse (swap s x y h) (begin_a y) (end_a s y) = traverse h (begin_a x) (end_a s x)
       \<and> (a < begin_a x \<or> end_a s x \<le> a \<longrightarrow> a < begin_a y \<or> end_a s y \<le> a \<longrightarrow>
            swap s x y h a = h a)
       \<and> swap s x y (swap s x y h) = h"
proof -
  let ?n = "unat (size_a s)"
  from assms have d: "x + ?n \<le> y \<or> y + ?n \<le> x"
    by (simp add: end_a_def begin_a_def)
  have cell: "swap s x y g b =
     (if x \<le> b \<and> b < x + ?n then g (y + (b - x))
      else if y \<le> b \<and> b < y + ?n then g (x + (b - y))
      else g b)" for g :: "'a store" and b
    by (simp add: swap_def std_swap_ranges_def range_size_addr begin_a_def
        swap_ranges_loop_cell [OF d])
  have px: "swap s x y g (x + q) = g (y + q)" if "q < ?n" for g :: "'a store" and q
    using that by (simp add: cell)
  have py: "swap s x y g (y + q) = g (x + q)" if "q < ?n" for g :: "'a store" and q
    using that d by (auto simp: cell)
  have twice: "swap s x y (swap s x y h) b = h b" for b
  proof -
    consider (inx) "x \<le> b \<and> b < x + ?n" | (iny) "y \<le> b \<and> b < y + ?n"
      | (out) "\<not> (x \<le> b \<and> b < x + ?n) \<and> \<not> (y \<le> b \<and> b < y + ?n)"
      by blast
    then show ?thesis
    proof cases
      case inx
      then obtain q where q: "b = x + q" "q < ?n"
        by (metis le_Suc_ex nat_add_left_cancel_less)
      show ?thesis by (simp add: q px py)
    next
      case iny
      then obtain q where q: "b = y + q" "q < ?n"
        by (metis le_Suc_ex nat_add_left_cancel_less)
      show ?thesis by (simp add: q px py)
    next
      case out
      then have "swap s x y g b = g b" for g :: "'a store"
        by (auto simp: cell)
      then show ?thesis by simp
    qed
  qed
  show ?thesis
  proof (intro conjI impI)
    show "swap s x y h (begin_a x + p) = h (begin_a y + p)" if "p < ?n"
      using that by (simp add: begin_a_def px)
    show "swap s x y h (begin_a y + p) = h (begin_a x + p)" if "p < ?n"
      using that by (simp add: begin_a_def py)
    show "traverse (swap s x y h) (begin_a x) (end_a s x) = traverse h (begin_a y) (end_a s y)"
      by (rule nth_equalityI)
        (simp_all add: traverse_def range_size_addr begin_a_def length_traverse_loop
          nth_traverse_loop px)
    show "traverse (swap s x y h) (begin_a y) (end_a s y) = traverse h (begin_a x) (end_a s x)"
      by (rule nth_equalityI)
        (simp_all add: traverse_def range_size_addr begin_a_def length_traverse_loop
          nth_traverse_loop py)
    show "swap s x y h a = h a"
      if "a < begin_a x \<or> end_a s x \<le> a" "a < begin_a y \<or> end_a s y \<le> a"
      using that by (auto simp: cell begin_a_def end_a_def)
    show "swap s x y (swap s x y h) = h"
      by (rule ext) (rule twice)
  qed
qed

theorem swap_exchanges_witness:
  "end_a \<lparr>D1 = 2, D2 = 2, D3 = 2 :: 64 word\<rparr> 0 \<le> begin_a 8
   \<and> swap \<lparr>D1 = 2, D2 = 2, D3 = 2 :: 64 word\<rparr> 0 8 (\<lambda>a. int a) (begin_a 0 + 3) = 11
   \<and> swap \<lparr>D1 = 2, D2 = 2, D3 = 2 :: 64 word\<rparr> 0 8 (\<lambda>a. int a) (begin_a 8 + 3) = 3
   \<and> traverse (swap \<lparr>D1 = 2, D2 = 2, D3 = 2 :: 64 word\<rparr> 0 8 (\<lambda>a. int a))
        (begin_a 0) (end_a \<lparr>D1 = 2, D2 = 2, D3 = 2 :: 64 word\<rparr> 0)
     = [8, 9, 10, 11, 12, 13, 14, 15]
   \<and> traverse (swap \<lparr>D1 = 2, D2 = 2, D3 = 2 :: 64 word\<rparr> 0 8 (\<lambda>a. int a))
        (begin_a 8) (end_a \<lparr>D1 = 2, D2 = 2, D3 = 2 :: 64 word\<rparr> 8)
     = [0, 1, 2, 3, 4, 5, 6, 7]
   \<and> swap \<lparr>D1 = 2, D2 = 2, D3 = 2 :: 64 word\<rparr> 0 8 (\<lambda>a. int a) 16 = 16
   \<and> swap \<lparr>D1 = 2, D2 = 2, D3 = 2 :: 64 word\<rparr> 0 8
        (swap \<lparr>D1 = 2, D2 = 2, D3 = 2 :: 64 word\<rparr> 0 8 (\<lambda>a. int a)) = (\<lambda>a. int a)"
proof -
  have d: "end_a \<lparr>D1 = 2, D2 = 2, D3 = 2 :: 64 word\<rparr> 0 \<le> begin_a 8"
    by (simp add: end_a_def begin_a_def size_a_def)
  then have d': "end_a \<lparr>D1 = 2, D2 = 2, D3 = 2 :: 64 word\<rparr> 0 \<le> begin_a 8
      \<or> end_a \<lparr>D1 = 2, D2 = 2, D3 = 2 :: 64 word\<rparr> 8 \<le> begin_a 0" ..
  have t: "traverse (\<lambda>a. int a) (begin_a 8) (end_a \<lparr>D1 = 2, D2 = 2, D3 = 2 :: 64 word\<rparr> 8)
      = [8, 9, 10, 11, 12, 13, 14, 15]"
    "traverse (\<lambda>a. int a) (begin_a 0) (end_a \<lparr>D1 = 2, D2 = 2, D3 = 2 :: 64 word\<rparr> 0)
      = [0, 1, 2, 3, 4, 5, 6, 7]"
    by code_simp+
  have e: "end_a \<lparr>D1 = 2, D2 = 2, D3 = 2 :: 64 word\<rparr> 0 = 8"
    "end_a \<lparr>D1 = 2, D2 = 2, D3 = 2 :: 64 word\<rparr> 8 = 16"
    "unat (size_a \<lparr>D1 = 2, D2 = 2, D3 = 2 :: 64 word\<rparr>) = 8"
    by (simp_all add: end_a_def begin_a_def size_a_def)
  from swap_exchanges [OF d', where p = 3 and a = 16 and h = "\<lambda>a. int a"] d t
  show ?thesis by (simp add: e begin_a_def)
qed

text \<open>
  Claim C10: \<open>a.swap(a)\<close> leaves every element of \<open>a\<close> unchanged. Here both ranges
  of \<open>std::swap_ranges\<close> are the same range, and the loop swaps each cell with itself.
  (The C++ standard asks of a caller of \<open>std::swap_ranges\<close> that the ranges do not
  overlap; the theorem is about the loop that the algorithm is specified to perform.)
\<close>

theorem swap_self:
  fixes s :: "'w::len dims" and h :: "'a store"
  shows "swap s x x h = h"
  by (simp add: swap_def std_swap_ranges_def swap_ranges_loop_same)

theorem swap_self_witness:
  "swap \<lparr>D1 = 2, D2 = 3, D3 = 4 :: 64 word\<rparr> 10 10 (\<lambda>a. int a) = (\<lambda>a. int a)"
  by (rule swap_self)

section \<open>Comparison operators\<close>

text \<open>
  Claim C5: \<open>operator==\<close> is true if and only if the elements at every flat position
  compare equal with \<open>==\<close> of \<open>T\<close>; \<open>operator!=\<close> is its negation; and equality of
  containers is reflexive, symmetric and transitive when \<open>==\<close> of \<open>T\<close> is.

  The flat positions are stated three times: through \<open>begin()\<close> and \<open>size()\<close>, as
  the cells \<open>x + p\<close> and \<open>y + p\<close> for the \<open>D1*D2*D3\<close> offsets \<open>p\<close> of the two arrays,
  and as the elements at every valid coordinate triple. So \<open>operator!=\<close> holds exactly
  when the elements at some valid coordinate triple do not compare equal.
\<close>

theorem equality_operators:
  fixes s :: "'w::len dims" and h :: "'a store" and eq :: "'a \<Rightarrow> 'a \<Rightarrow> bool"
  shows "(op_eq eq s x y h \<longleftrightarrow>
            (\<forall>p<unat (size_a s). eq (h (begin_a x + p)) (h (begin_a y + p))))
       \<and> (op_ne eq s x y h \<longleftrightarrow> \<not> op_eq eq s x y h)
       \<and> ((\<forall>a. eq a a) \<longrightarrow> op_eq eq s x x h)
       \<and> ((\<forall>a b. eq a b \<longrightarrow> eq b a) \<longrightarrow> op_eq eq s x y h \<longrightarrow> op_eq eq s y x h)
       \<and> ((\<forall>a b c. eq a b \<longrightarrow> eq b c \<longrightarrow> eq a c) \<longrightarrow>
            op_eq eq s x y h \<longrightarrow> op_eq eq s y z h \<longrightarrow> op_eq eq s x z h)
       \<and> (valid_dims s \<longrightarrow>
            (op_eq eq s x y h \<longleftrightarrow>
              (\<forall>p<unat (D1 s) * unat (D2 s) * unat (D3 s). eq (h (x + p)) (h (y + p)))))
       \<and> (valid_dims s \<longrightarrow>
            (op_eq eq s x y h \<longleftrightarrow>
              (\<forall>i j k. i < D1 s \<and> j < D2 s \<and> k < D3 s \<longrightarrow>
                 eq (h (op_call s x i j k)) (h (op_call s y i j k)))))
       \<and> (valid_dims s \<longrightarrow>
            (op_ne eq s x y h \<longleftrightarrow>
              (\<exists>i j k. i < D1 s \<and> j < D2 s \<and> k < D3 s \<and>
                 \<not> eq (h (op_call s x i j k)) (h (op_call s y i j k)))))"
proof -
  have iff: "op_eq eq s u v h \<longleftrightarrow>
      (\<forall>p<unat (size_a s). eq (h (begin_a u + p)) (h (begin_a v + p)))" for u v
    by (simp add: op_eq_def std_equal_def range_size equal_loop_iff)
  have flat: "op_eq eq s x y h \<longleftrightarrow>
      (\<forall>p<unat (D1 s) * unat (D2 s) * unat (D3 s). eq (h (x + p)) (h (y + p)))"
    if "valid_dims s"
    by (simp add: iff begin_a_def unat_size_a [OF that])
  have coord: "op_eq eq s x y h \<longleftrightarrow>
      (\<forall>i j k. i < D1 s \<and> j < D2 s \<and> k < D3 s \<longrightarrow>
         eq (h (op_call s x i j k)) (h (op_call s y i j k)))"
    if v: "valid_dims s"
  proof
    assume e: "op_eq eq s x y h"
    show "\<forall>i j k. i < D1 s \<and> j < D2 s \<and> k < D3 s \<longrightarrow>
         eq (h (op_call s x i j k)) (h (op_call s y i j k))"
    proof (intro allI impI)
      fix i j k
      assume "i < D1 s \<and> j < D2 s \<and> k < D3 s"
      then have "unat i * (unat (D2 s) * unat (D3 s)) + unat j * unat (D3 s) + unat k
          < unat (size_a s)"
        using v by (simp add: offset_in_size)
      with e show "eq (h (op_call s x i j k)) (h (op_call s y i j k))"
        by (simp add: iff begin_a_def op_call_def elems_at_offset)
    qed
  next
    assume c: "\<forall>i j k. i < D1 s \<and> j < D2 s \<and> k < D3 s \<longrightarrow>
         eq (h (op_call s x i j k)) (h (op_call s y i j k))"
    show "op_eq eq s x y h"
      unfolding iff
    proof (intro allI impI)
      fix p
      assume "p < unat (size_a s)"
      from offset_onto [OF v this, of 0]
      obtain i j k where ijk: "i < D1 s \<and> j < D2 s \<and> k < D3 s"
        and off: "elems_at s 0 i j k = 0 + p"
        by blast
      from off have u: "op_call s u i j k = u + p" for u
        by (simp add: op_call_def elems_at_offset)
      from c ijk have "eq (h (op_call s x i j k)) (h (op_call s y i j k))"
        by blast
      then show "eq (h (begin_a x + p)) (h (begin_a y + p))"
        by (simp only: u begin_a_def)
    qed
  qed
  show ?thesis
  proof (intro conjI impI)
    show "op_eq eq s x y h \<longleftrightarrow>
        (\<forall>p<unat (size_a s). eq (h (begin_a x + p)) (h (begin_a y + p)))"
      by (rule iff)
    show "op_ne eq s x y h \<longleftrightarrow> \<not> op_eq eq s x y h"
      by (simp add: op_ne_def)
    show "op_eq eq s x x h" if "\<forall>a. eq a a"
      using that by (simp add: iff)
    show "op_eq eq s y x h" if "\<forall>a b. eq a b \<longrightarrow> eq b a" "op_eq eq s x y h"
      using that by (simp add: iff)
    show "op_eq eq s x z h"
      if "\<forall>a b c. eq a b \<longrightarrow> eq b c \<longrightarrow> eq a c" "op_eq eq s x y h" "op_eq eq s y z h"
      unfolding iff
    proof (intro allI impI)
      fix p assume "p < unat (size_a s)"
      with that(2,3) have "eq (h (begin_a x + p)) (h (begin_a y + p))"
        "eq (h (begin_a y + p)) (h (begin_a z + p))"
        by (simp_all add: iff)
      with that(1) show "eq (h (begin_a x + p)) (h (begin_a z + p))" by blast
    qed
    show "op_eq eq s x y h \<longleftrightarrow>
        (\<forall>p<unat (D1 s) * unat (D2 s) * unat (D3 s). eq (h (x + p)) (h (y + p)))"
      if "valid_dims s"
      using that by (rule flat)
    show "op_eq eq s x y h \<longleftrightarrow>
        (\<forall>i j k. i < D1 s \<and> j < D2 s \<and> k < D3 s \<longrightarrow>
           eq (h (op_call s x i j k)) (h (op_call s y i j k)))"
      if "valid_dims s"
      using that by (rule coord)
    show "op_ne eq s x y h \<longleftrightarrow>
        (\<exists>i j k. i < D1 s \<and> j < D2 s \<and> k < D3 s \<and>
           \<not> eq (h (op_call s x i j k)) (h (op_call s y i j k)))"
      if "valid_dims s"
      unfolding op_ne_def coord [OF that] by blast
  qed
qed

theorem equality_operators_witness:
  "op_eq (=) \<lparr>D1 = 2, D2 = 2, D3 = 2 :: 64 word\<rparr> 0 8 (\<lambda>a. int (a mod 8))
   \<and> \<not> op_ne (=) \<lparr>D1 = 2, D2 = 2, D3 = 2 :: 64 word\<rparr> 0 8 (\<lambda>a. int (a mod 8))
   \<and> op_eq (=) \<lparr>D1 = 2, D2 = 2, D3 = 2 :: 64 word\<rparr> 0 0 (\<lambda>a. int (a mod 8))
   \<and> op_eq (=) \<lparr>D1 = 2, D2 = 2, D3 = 2 :: 64 word\<rparr> 8 0 (\<lambda>a. int (a mod 8))
   \<and> op_eq (=) \<lparr>D1 = 2, D2 = 2, D3 = 2 :: 64 word\<rparr> 0 16 (\<lambda>a. int (a mod 8))
   \<and> valid_dims \<lparr>D1 = 2, D2 = 2, D3 = 2 :: 64 word\<rparr>
   \<and> ((\<lambda>a. int (a mod 8))(15 := 9)) (op_call \<lparr>D1 = 2, D2 = 2, D3 = 2 :: 64 word\<rparr> 0 1 1 1) = 7
   \<and> ((\<lambda>a. int (a mod 8))(15 := 9)) (op_call \<lparr>D1 = 2, D2 = 2, D3 = 2 :: 64 word\<rparr> 8 1 1 1) = 9
   \<and> \<not> op_eq (=) \<lparr>D1 = 2, D2 = 2, D3 = 2 :: 64 word\<rparr> 0 8 ((\<lambda>a. int (a mod 8))(15 := 9))
   \<and> op_ne (=) \<lparr>D1 = 2, D2 = 2, D3 = 2 :: 64 word\<rparr> 0 8 ((\<lambda>a. int (a mod 8))(15 := 9))
   \<and> \<not> op_eq (=) \<lparr>D1 = 2, D2 = 2, D3 = 2 :: 64 word\<rparr> 0 8 ((\<lambda>a. int (a mod 8))(8 := 5))
   \<and> \<not> op_eq (=) \<lparr>D1 = 1, D2 = 1, D3 = 1 :: 64 word\<rparr> 3 4 (\<lambda>a. int a)"
proof -
  let ?s = "\<lparr>D1 = 2, D2 = 2, D3 = 2 :: 64 word\<rparr>"
  let ?u = "\<lparr>D1 = 1, D2 = 1, D3 = 1 :: 64 word\<rparr>"
  let ?h = "\<lambda>a. int (a mod 8)"
  let ?g = "(\<lambda>a. int (a mod 8))(15 := 9)"
  let ?f = "(\<lambda>a. int (a mod 8))(8 := 5)"
  have e: "op_eq (=) ?s 8 16 ?h"
    by code_simp
  have n: "unat (size_a ?s) = 8"
    by (simp add: size_a_def)
  have v: "valid_dims ?s" "valid_dims ?u"
    by (simp_all add: valid_dims_def)
  have c: "op_call ?s 0 1 1 1 = 7" "op_call ?s 8 1 1 1 = 15"
    by (simp_all add: op_call_def elems_at_def subscript_def)
  from equality_operators [where eq = "(=)" and s = ?s
      and x = 0 and y = 8 and z = 16 and h = ?h] e
  have same: "op_eq (=) ?s 0 8 ?h \<and> \<not> op_ne (=) ?s 0 8 ?h \<and> op_eq (=) ?s 0 0 ?h
      \<and> op_eq (=) ?s 8 0 ?h \<and> op_eq (=) ?s 0 16 ?h"
    by (simp add: n begin_a_def)
  note G = equality_operators [where eq = "(=)" and s = ?s and x = 0 and y = 8 and h = ?g]
  have cell: "?g (op_call ?s 0 1 1 1) = 7" "?g (op_call ?s 8 1 1 1) = 9"
    by (simp_all add: c)
  have ne: "op_ne (=) ?s 0 8 ?g"
  proof -
    have "\<exists>i j k. i < D1 ?s \<and> j < D2 ?s \<and> k < D3 ?s \<and>
        \<not> ?g (op_call ?s 0 i j k) = ?g (op_call ?s 8 i j k)"
      by (rule exI [of _ 1], rule exI [of _ 1], rule exI [of _ 1]) (simp add: c)
    with G [THEN conjunct2, THEN conjunct2, THEN conjunct2, THEN conjunct2, THEN conjunct2,
        THEN conjunct2, THEN conjunct2] v(1)
    show ?thesis by blast
  qed
  with G [THEN conjunct2, THEN conjunct1] have neq: "\<not> op_eq (=) ?s 0 8 ?g"
    by blast
  have first: "\<not> op_eq (=) ?s 0 8 ?f"
  proof
    assume "op_eq (=) ?s 0 8 ?f"
    with equality_operators [where eq = "(=)" and s = ?s and x = 0 and y = 8 and h = ?f,
        THEN conjunct2, THEN conjunct2, THEN conjunct2, THEN conjunct2, THEN conjunct2,
        THEN conjunct1] v(1)
    have "\<forall>p<unat (D1 ?s) * unat (D2 ?s) * unat (D3 ?s). ?f (0 + p) = ?f (8 + p)"
      by blast
    then have "?f (0 + 0) = ?f (8 + 0)"
      by (rule allE [of _ 0]) simp
    then show False by simp
  qed
  have one: "\<not> op_eq (=) ?u 3 4 (\<lambda>a. int a)"
  proof
    assume "op_eq (=) ?u 3 4 (\<lambda>a. int a)"
    with equality_operators [where eq = "(=)" and s = ?u and x = 3 and y = 4
        and h = "\<lambda>a. int a", THEN conjunct2, THEN conjunct2, THEN conjunct2,
        THEN conjunct2, THEN conjunct2, THEN conjunct1] v(2)
    have "\<forall>p<unat (D1 ?u) * unat (D2 ?u) * unat (D3 ?u). int (3 + p) = int (4 + p)"
      by blast
    then have "int (3 + 0) = int (4 + 0)"
      by (rule allE [of _ 0]) simp
    then show False by simp
  qed
  from same v(1) cell neq ne first one show ?thesis by simp
qed

text \<open>
  Claim C4: \<open>operator<\<close> is the lexicographic comparison of the two flattened
  sequences: the first position at which the elements differ decides, and equal
  sequences are not less. \<open>a > b\<close> is \<open>b < a\<close>, \<open>a <= b\<close> is \<open>!(b < a)\<close> and
  \<open>a >= b\<close> is \<open>!(a < b)\<close>.

  The first conjunct holds for every \<open><\<close> of \<open>T\<close>, with two elements differing when
  one is less than the other, as \<open>std::lexicographical_compare\<close> compares them. For
  an irreflexive and total \<open><\<close> this is the first position with unequal elements
  (second conjunct). The third conjunct is the case of two containers that differ at
  one position only, the fourth the case of equal contents.
\<close>

theorem ordering_operators:
  fixes s :: "'w::len dims" and h :: "'a store" and lt :: "'a \<Rightarrow> 'a \<Rightarrow> bool"
  shows "(op_lt lt s x y h \<longleftrightarrow>
            (\<exists>p<unat (size_a s). lt (h (begin_a x + p)) (h (begin_a y + p)) \<and>
               (\<forall>q<p. \<not> lt (h (begin_a x + q)) (h (begin_a y + q))
                    \<and> \<not> lt (h (begin_a y + q)) (h (begin_a x + q)))))
       \<and> ((\<forall>a. \<not> lt a a) \<and> (\<forall>a b. a \<noteq> b \<longrightarrow> lt a b \<or> lt b a) \<longrightarrow>
            (op_lt lt s x y h \<longleftrightarrow>
              (\<exists>p<unat (size_a s). lt (h (begin_a x + p)) (h (begin_a y + p)) \<and>
                 (\<forall>q<p. h (begin_a x + q) = h (begin_a y + q)))))
       \<and> ((\<forall>a. \<not> lt a a) \<and> p < unat (size_a s) \<and>
            (\<forall>q<unat (size_a s). q \<noteq> p \<longrightarrow> h (begin_a x + q) = h (begin_a y + q)) \<longrightarrow>
            (op_lt lt s x y h \<longleftrightarrow> lt (h (begin_a x + p)) (h (begin_a y + p))))
       \<and> ((\<forall>a. \<not> lt a a) \<and>
            (\<forall>q<unat (size_a s). h (begin_a x + q) = h (begin_a y + q)) \<longrightarrow>
            \<not> op_lt lt s x y h)
       \<and> (op_gt lt s x y h \<longleftrightarrow> op_lt lt s y x h)
       \<and> (op_le lt s x y h \<longleftrightarrow> \<not> op_lt lt s y x h)
       \<and> (op_ge lt s x y h \<longleftrightarrow> \<not> op_lt lt s x y h)"
proof -
  let ?n = "unat (size_a s)"
  let ?a = "\<lambda>q. h (begin_a x + q)"
  let ?b = "\<lambda>q. h (begin_a y + q)"
  have iff: "op_lt lt s x y h \<longleftrightarrow>
      (\<exists>p<?n. lt (?a p) (?b p) \<and> (\<forall>q<p. \<not> lt (?a q) (?b q) \<and> \<not> lt (?b q) (?a q)))"
    by (simp add: op_lt_def std_lexicographical_compare_def range_size
        lexicographical_compare_loop_iff)
  show ?thesis
  proof (intro conjI impI)
    show "op_lt lt s x y h \<longleftrightarrow>
      (\<exists>p<?n. lt (?a p) (?b p) \<and> (\<forall>q<p. \<not> lt (?a q) (?b q) \<and> \<not> lt (?b q) (?a q)))"
      by (rule iff)
    show "op_lt lt s x y h \<longleftrightarrow> (\<exists>p<?n. lt (?a p) (?b p) \<and> (\<forall>q<p. ?a q = ?b q))"
      if "(\<forall>a. \<not> lt a a) \<and> (\<forall>a b. a \<noteq> b \<longrightarrow> lt a b \<or> lt b a)"
    proof -
      from that have "(\<not> lt c d \<and> \<not> lt d c) = (c = d)" for c d by blast
      then show ?thesis by (simp only: iff)
    qed
    show "op_lt lt s x y h \<longleftrightarrow> lt (?a p) (?b p)"
      if "(\<forall>a. \<not> lt a a) \<and> p < ?n \<and> (\<forall>q<?n. q \<noteq> p \<longrightarrow> ?a q = ?b q)"
    proof
      assume "op_lt lt s x y h"
      then obtain r where r: "r < ?n" "lt (?a r) (?b r)" unfolding iff by blast
      with that have "r = p" by metis
      with r show "lt (?a p) (?b p)" by simp
    next
      assume l: "lt (?a p) (?b p)"
      have "\<not> lt (?a q) (?b q) \<and> \<not> lt (?b q) (?a q)" if "q < p" for q
      proof -
        from that \<open>(\<forall>a. \<not> lt a a) \<and> p < ?n \<and> (\<forall>q<?n. q \<noteq> p \<longrightarrow> ?a q = ?b q)\<close>
        have "?a q = ?b q" by simp
        with \<open>(\<forall>a. \<not> lt a a) \<and> p < ?n \<and> (\<forall>q<?n. q \<noteq> p \<longrightarrow> ?a q = ?b q)\<close>
        show ?thesis by simp
      qed
      with l that show "op_lt lt s x y h" unfolding iff by blast
    qed
    show "\<not> op_lt lt s x y h"
      if "(\<forall>a. \<not> lt a a) \<and> (\<forall>q<?n. ?a q = ?b q)"
      unfolding iff using that by metis
    show "op_gt lt s x y h \<longleftrightarrow> op_lt lt s y x h" by (simp add: op_gt_def)
    show "op_le lt s x y h \<longleftrightarrow> \<not> op_lt lt s y x h" by (simp add: op_le_def)
    show "op_ge lt s x y h \<longleftrightarrow> \<not> op_lt lt s x y h" by (simp add: op_ge_def)
  qed
qed

theorem ordering_operators_witness:
  "op_lt (<) \<lparr>D1 = 2, D2 = 2, D3 = 2 :: 64 word\<rparr> 0 8 ((\<lambda>a. int (a mod 8))(15 := 9))
   \<and> op_gt (<) \<lparr>D1 = 2, D2 = 2, D3 = 2 :: 64 word\<rparr> 8 0 ((\<lambda>a. int (a mod 8))(15 := 9))
   \<and> \<not> op_ge (<) \<lparr>D1 = 2, D2 = 2, D3 = 2 :: 64 word\<rparr> 0 8 ((\<lambda>a. int (a mod 8))(15 := 9))
   \<and> \<not> op_le (<) \<lparr>D1 = 2, D2 = 2, D3 = 2 :: 64 word\<rparr> 8 0 ((\<lambda>a. int (a mod 8))(15 := 9))
   \<and> \<not> op_lt (<) \<lparr>D1 = 2, D2 = 2, D3 = 2 :: 64 word\<rparr> 0 0 ((\<lambda>a. int (a mod 8))(15 := 9))
   \<and> (\<exists>p<8. ((\<lambda>a. int (a mod 8))(15 := 9)) (begin_a 0 + p)
            < ((\<lambda>a. int (a mod 8))(15 := 9)) (begin_a 8 + p)
          \<and> (\<forall>q<p. ((\<lambda>a. int (a mod 8))(15 := 9)) (begin_a 0 + q)
                  = ((\<lambda>a. int (a mod 8))(15 := 9)) (begin_a 8 + q)))"
proof -
  let ?s = "\<lparr>D1 = 2, D2 = 2, D3 = 2 :: 64 word\<rparr>"
  let ?h = "(\<lambda>a. int (a mod 8))(15 := 9)"
  have n: "unat (size_a ?s) = 8"
    by (simp add: size_a_def)
  have irr: "\<forall>a::int. \<not> a < a" and tot: "\<forall>a b::int. a \<noteq> b \<longrightarrow> a < b \<or> b < a"
    by auto
  have p7: "7 < unat (size_a ?s)"
    by (simp add: n)
  have same: "\<forall>q<unat (size_a ?s). q \<noteq> 7 \<longrightarrow> ?h (begin_a 0 + q) = ?h (begin_a 8 + q)"
    by (auto simp: n begin_a_def)
  have same0: "\<forall>q<unat (size_a ?s). ?h (begin_a 0 + q) = ?h (begin_a 0 + q)"
    by simp
  have at7: "?h (begin_a 0 + 7) < ?h (begin_a 8 + 7)"
    by (simp add: begin_a_def)
  note A = ordering_operators [where lt = "(<)" and s = ?s and x = 0 and y = 8 and h = ?h
      and p = 7]
  note B = ordering_operators [where lt = "(<)" and s = ?s and x = 8 and y = 0 and h = ?h
      and p = 7]
  note C = ordering_operators [where lt = "(<)" and s = ?s and x = 0 and y = 0 and h = ?h
      and p = 7]
  from A [THEN conjunct2, THEN conjunct2, THEN conjunct1] irr p7 same at7
  have lt: "op_lt (<) ?s 0 8 ?h" by blast
  from A [THEN conjunct2, THEN conjunct1] irr tot lt
  have first: "\<exists>p<8. ?h (begin_a 0 + p) < ?h (begin_a 8 + p)
          \<and> (\<forall>q<p. ?h (begin_a 0 + q) = ?h (begin_a 8 + q))"
    unfolding n by blast
  from A [THEN conjunct2, THEN conjunct2, THEN conjunct2, THEN conjunct2, THEN conjunct2,
      THEN conjunct2] lt
  have ge: "\<not> op_ge (<) ?s 0 8 ?h" by blast
  from B [THEN conjunct2, THEN conjunct2, THEN conjunct2, THEN conjunct2, THEN conjunct1] lt
  have gt: "op_gt (<) ?s 8 0 ?h" by blast
  from C [THEN conjunct2, THEN conjunct2, THEN conjunct2, THEN conjunct1] irr same0
  have eq: "\<not> op_lt (<) ?s 0 0 ?h" by blast
  from B [THEN conjunct2, THEN conjunct2, THEN conjunct2, THEN conjunct2, THEN conjunct2,
      THEN conjunct1] lt
  have le: "\<not> op_le (<) ?s 8 0 ?h" by blast
  from lt gt ge le eq first show ?thesis by simp
qed

end
